theory Spec2Isabelle
  imports Complex_Main
begin

section \<open>Monte-Carlo tree search of the cube solver (mcts.py)\<close>

text \<open>
  The embedding follows \<^verbatim>\<open>class MCTS\<close> of mcts.py. The values the engine stores (the
  estimator's outputs, the exploration constant, the running means) are the real numbers
  of the estimator's contract, and the arithmetic of the running mean is exact. The
  scores of the selection loop are compared with each other, so they are floats: every
  arithmetic result passes through the rounding of the machine, which may overflow to an
  infinity, and a comparison with a NaN is false. The visit counters, which the code
  only ever sets to 0 or 1 and then increments, are \<^typ>\<open>nat\<close>; actions are
  \<^typ>\<open>int\<close>, because the selection loop starts from the sentinel \<open>-1\<close>. A raised
  exception is the left summand of the result. The recursion of \<^verbatim>\<open>search\<close> is given
  twice: on an unbounded stack, where a call that never returns is the value \<open>None\<close>,
  and with the recursion limit of the interpreter, where it raises
  \<^verbatim>\<open>RecursionError\<close>.
\<close>

subsection \<open>Data model\<close>

datatype py_error = KeyError | IndexError | ZeroDivisionError | ValueError | RecursionError

subsection \<open>Floats\<close>

text \<open>
  A Python float is a finite number, an infinity or a NaN. The rounding \<open>rd\<close> of the
  machine takes the exact result of an operation on finite numbers to the float the
  machine stores, an infinity when it overflows; the operations on infinities and NaN
  are those of IEEE 754. The sign of zero is not modelled: no operation of the engine
  depends on it.
\<close>

datatype pyfloat = Fin real | PInf | NInf | NaN

fun fl_sign :: "pyfloat \<Rightarrow> real" where
  "fl_sign (Fin x) = sgn x"
| "fl_sign PInf = 1"
| "fl_sign NInf = - 1"
| "fl_sign NaN = 0"

fun fl_mul :: "(real \<Rightarrow> pyfloat) \<Rightarrow> pyfloat \<Rightarrow> pyfloat \<Rightarrow> pyfloat" where
  "fl_mul rd NaN y = NaN"
| "fl_mul rd x NaN = NaN"
| "fl_mul rd (Fin x) (Fin y) = rd (x * y)"
| "fl_mul rd x y =
     (if fl_sign x * fl_sign y = 0 then NaN
      else if 0 < fl_sign x * fl_sign y then PInf else NInf)"

fun fl_add :: "(real \<Rightarrow> pyfloat) \<Rightarrow> pyfloat \<Rightarrow> pyfloat \<Rightarrow> pyfloat" where
  "fl_add rd NaN y = NaN"
| "fl_add rd x NaN = NaN"
| "fl_add rd (Fin x) (Fin y) = rd (x + y)"
| "fl_add rd PInf NInf = NaN"
| "fl_add rd NInf PInf = NaN"
| "fl_add rd PInf y = PInf"
| "fl_add rd x PInf = PInf"
| "fl_add rd NInf y = NInf"
| "fl_add rd x NInf = NInf"

text \<open>Division by a positive finite number, as \<^verbatim>\<open>1 + self.Nsa[(s, a)]\<close> is.\<close>

fun fl_div :: "(real \<Rightarrow> pyfloat) \<Rightarrow> pyfloat \<Rightarrow> real \<Rightarrow> pyfloat" where
  "fl_div rd (Fin x) d = rd (x / d)"
| "fl_div rd x d = x"

text \<open>\<^verbatim>\<open>math.sqrt\<close>, which raises \<^verbatim>\<open>ValueError\<close> below zero.\<close>

fun fl_sqrt :: "(real \<Rightarrow> pyfloat) \<Rightarrow> pyfloat \<Rightarrow> py_error + pyfloat" where
  "fl_sqrt rd (Fin x) = (if x < 0 then Inl ValueError else Inr (rd (sqrt x)))"
| "fl_sqrt rd PInf = Inr PInf"
| "fl_sqrt rd NInf = Inl ValueError"
| "fl_sqrt rd NaN = Inr NaN"

text \<open>The comparison \<^verbatim>\<open>x > y\<close> of two floats.\<close>

fun fl_gt :: "pyfloat \<Rightarrow> pyfloat \<Rightarrow> bool" where
  "fl_gt NaN y = False"
| "fl_gt x NaN = False"
| "fl_gt (Fin x) (Fin y) = (y < x)"
| "fl_gt x PInf = False"
| "fl_gt NInf y = False"
| "fl_gt PInf y = True"
| "fl_gt x NInf = True"

text \<open>
  What the engine runs on: the key encoder \<^verbatim>\<open>np.array2string\<close>, \<^verbatim>\<open>game.step\<close>
  (which mutates the game object, here the state \<open>'g\<close>, and returns the next board and
  the flag \<^verbatim>\<open>done\<close>; reward and info are dropped by the caller), \<^verbatim>\<open>model.predict\<close>
  (whose object is the state \<open>'e\<close>), and the rounding of the machine's float arithmetic.
\<close>

record ('b, 'g, 'e) iface =
  array2string :: "'b \<Rightarrow> string"
  step :: "'g \<Rightarrow> int \<Rightarrow> 'b \<times> bool \<times> 'g"
  predict :: "'e \<Rightarrow> 'b \<Rightarrow> (real \<times> real list) \<times> 'e"
  fl_round :: "real \<Rightarrow> pyfloat"

text \<open>The fields of an \<^verbatim>\<open>MCTS\<close> object; \<^verbatim>\<open>action_dim\<close> is the constant 6.\<close>

record ('g, 'e) MCTS =
  game :: 'g
  model :: 'e
  numMCTSSim :: nat
  cpuct :: real
  Qsa :: "string \<times> int \<rightharpoonup> real"
  Nsa :: "string \<times> int \<rightharpoonup> nat"
  Ns :: "string \<rightharpoonup> nat"
  Ps :: "string \<rightharpoonup> real list"
  Es :: "string \<rightharpoonup> bool"

definition EPS :: real where
  "EPS = 1 / 10 ^ 8"

definition action_dim :: nat where
  "action_dim = 6"

definition MCTS_init :: "'g \<Rightarrow> 'e \<Rightarrow> nat \<Rightarrow> real \<Rightarrow> ('g, 'e) MCTS" where
  "MCTS_init g e n c =
     \<lparr>game = g, model = e, numMCTSSim = n, cpuct = c,
      Qsa = Map.empty, Nsa = Map.empty, Ns = Map.empty, Ps = Map.empty, Es = Map.empty\<rparr>"

subsection \<open>Selection\<close>

text \<open>
  The score \<open>u\<close> of one action in the loop of \<^verbatim>\<open>search\<close> (lines 116 to 120), computed
  in floats from left to right. The subscripts are read in the order Python evaluates
  them, so a prior vector that is too short raises before a missing counter does.
\<close>

definition ucb ::
  "(real \<Rightarrow> pyfloat) \<Rightarrow> ('g, 'e) MCTS \<Rightarrow> string \<Rightarrow> nat \<Rightarrow> py_error + pyfloat"
where
  "ucb rd m s a =
     (case Ps m s of
        None \<Rightarrow> Inl KeyError
      | Some p \<Rightarrow>
          (case Qsa m (s, int a) of
             Some q \<Rightarrow>
               if length p \<le> a then Inl IndexError
               else (case Ns m s of
                       None \<Rightarrow> Inl KeyError
                     | Some n \<Rightarrow>
                         (case fl_sqrt rd (Fin (real n)) of
                            Inl err \<Rightarrow> Inl err
                          | Inr r \<Rightarrow>
                              (case Nsa m (s, int a) of
                                 None \<Rightarrow> Inl KeyError
                               | Some k \<Rightarrow>
                                   Inr (fl_add rd (Fin q)
                                     (fl_div rd
                                       (fl_mul rd (fl_mul rd (Fin (cpuct m)) (Fin (p ! a))) r)
                                       (1 + real k))))))
           | None \<Rightarrow>
               if length p \<le> a then Inl IndexError
               else (case Ns m s of
                       None \<Rightarrow> Inl KeyError
                     | Some n \<Rightarrow>
                         (case fl_sqrt rd (fl_add rd (Fin (real n)) (Fin EPS)) of
                            Inl err \<Rightarrow> Inl err
                          | Inr r \<Rightarrow>
                              Inr (fl_mul rd (fl_mul rd (Fin (cpuct m)) (Fin (p ! a))) r)))))"

text \<open>
  The loop over \<^verbatim>\<open>range(self.action_dim)\<close>, carrying \<^verbatim>\<open>(cur_best, best_act)\<close>, which
  start as \<^verbatim>\<open>(-float('inf'), -1)\<close>.
\<close>

fun select_loop ::
  "(real \<Rightarrow> pyfloat) \<Rightarrow> ('g, 'e) MCTS \<Rightarrow> string \<Rightarrow> nat list \<Rightarrow> pyfloat \<times> int
     \<Rightarrow> py_error + pyfloat \<times> int"
where
  "select_loop rd m s [] acc = Inr acc"
| "select_loop rd m s (a # as) (cur_best, best_act) =
     (case ucb rd m s a of
        Inl err \<Rightarrow> Inl err
      | Inr u \<Rightarrow>
          if fl_gt u cur_best then select_loop rd m s as (u, int a)
          else select_loop rd m s as (cur_best, best_act))"

definition select_action ::
  "(real \<Rightarrow> pyfloat) \<Rightarrow> ('g, 'e) MCTS \<Rightarrow> string \<Rightarrow> py_error + int"
where
  "select_action rd m s =
     (case select_loop rd m s [0..<action_dim] (NInf, - 1) of
        Inl err \<Rightarrow> Inl err
      | Inr (cur_best, best_act) \<Rightarrow> Inr best_act)"

subsection \<open>Backup\<close>

text \<open>Lines 133 to 142: the update of the edge, then of the node, and the returned value.\<close>

definition backup ::
  "('g, 'e) MCTS \<Rightarrow> string \<Rightarrow> int \<Rightarrow> real \<Rightarrow> py_error + real \<times> ('g, 'e) MCTS"
where
  "backup m s a v =
     (case (case Qsa m (s, a) of
              Some q \<Rightarrow>
                (case Nsa m (s, a) of
                   None \<Rightarrow> Inl KeyError
                 | Some n \<Rightarrow>
                     Inr (m\<lparr>Qsa := (Qsa m)((s, a) \<mapsto> (real n * q + v) / (real n + 1)),
                            Nsa := (Nsa m)((s, a) \<mapsto> n + 1)\<rparr>))
            | None \<Rightarrow> Inr (m\<lparr>Qsa := (Qsa m)((s, a) \<mapsto> v), Nsa := (Nsa m)((s, a) \<mapsto> 1)\<rparr>)) of
        Inl err \<Rightarrow> Inl err
      | Inr m' \<Rightarrow>
          (case Ns m' s of
             None \<Rightarrow> Inl KeyError
           | Some k \<Rightarrow> Inr (- v, m'\<lparr>Ns := (Ns m')(s \<mapsto> k + 1)\<rparr>)))"

subsection \<open>One simulation\<close>

text \<open>Lines 96 and 97: the flag is stored only for a key that has none yet.\<close>

definition note_ended :: "('g, 'e) MCTS \<Rightarrow> string \<Rightarrow> bool \<Rightarrow> ('g, 'e) MCTS" where
  "note_ended m s game_ended =
     (if s \<notin> dom (Es m) then m\<lparr>Es := (Es m)(s \<mapsto> game_ended)\<rparr> else m)"

text \<open>Lines 104 to 109: the estimator is asked, its prior stored, the counter set to 0.\<close>

definition expand ::
  "('b, 'g, 'e) iface \<Rightarrow> ('g, 'e) MCTS \<Rightarrow> 'b \<Rightarrow> string \<Rightarrow> real \<times> ('g, 'e) MCTS"
where
  "expand I m canonicalBoard s =
     (case predict I (model m) canonicalBoard of
        ((v, p), e') \<Rightarrow> (- v, m\<lparr>model := e', Ps := (Ps m)(s \<mapsto> p), Ns := (Ns m)(s \<mapsto> 0)\<rparr>))"

partial_function (option) search ::
  "('b, 'g, 'e) iface \<Rightarrow> ('g, 'e) MCTS \<Rightarrow> 'b \<Rightarrow> bool \<Rightarrow> (py_error + real \<times> ('g, 'e) MCTS) option"
where
  "search I m canonicalBoard game_ended =
     (let s = array2string I canonicalBoard;
          m0 = note_ended m s game_ended
      in if Es m0 s = Some True then Some (Inr (1, m0))
         else if s \<notin> dom (Ps m0) then Some (Inr (expand I m0 canonicalBoard s))
         else (case select_action (fl_round I) m0 s of
                 Inl err \<Rightarrow> Some (Inl err)
               | Inr a \<Rightarrow>
                   (case step I (game m0) a of
                      (next_s, done, g') \<Rightarrow>
                        Option.bind (search I (m0\<lparr>game := g'\<rparr>) next_s done)
                          (\<lambda>r. case r of
                                 Inl err \<Rightarrow> Some (Inl err)
                               | Inr (v, m1) \<Rightarrow> Some (backup m1 s a v)))))"

text \<open>
  The same call with room for \<open>n\<close> more frames of \<^verbatim>\<open>search\<close> on the stack of the
  interpreter: a call that finds no room raises \<^verbatim>\<open>RecursionError\<close>, which every
  caller passes on.
\<close>

fun search_within ::
  "('b, 'g, 'e) iface \<Rightarrow> nat \<Rightarrow> ('g, 'e) MCTS \<Rightarrow> 'b \<Rightarrow> bool \<Rightarrow> py_error + real \<times> ('g, 'e) MCTS"
where
  "search_within I 0 m canonicalBoard game_ended = Inl RecursionError"
| "search_within I (Suc n) m canonicalBoard game_ended =
     (let s = array2string I canonicalBoard;
          m0 = note_ended m s game_ended
      in if Es m0 s = Some True then Inr (1, m0)
         else if s \<notin> dom (Ps m0) then Inr (expand I m0 canonicalBoard s)
         else (case select_action (fl_round I) m0 s of
                 Inl err \<Rightarrow> Inl err
               | Inr a \<Rightarrow>
                   (case step I (game m0) a of
                      (next_s, done, g') \<Rightarrow>
                        (case search_within I n (m0\<lparr>game := g'\<rparr>) next_s done of
                           Inl err \<Rightarrow> Inl err
                         | Inr (v, m1) \<Rightarrow> backup m1 s a v))))"

subsection \<open>The action distribution\<close>

text \<open>Lines 50 and 51: the passes run one after the other on the same object.\<close>

fun simulations ::
  "('b, 'g, 'e) iface \<Rightarrow> nat \<Rightarrow> ('g, 'e) MCTS \<Rightarrow> 'b \<Rightarrow> (py_error + ('g, 'e) MCTS) option"
where
  "simulations I 0 m canonicalBoard = Some (Inr m)"
| "simulations I (Suc n) m canonicalBoard =
     (case search I m canonicalBoard False of
        None \<Rightarrow> None
      | Some (Inl err) \<Rightarrow> Some (Inl err)
      | Some (Inr (v, m')) \<Rightarrow> simulations I n m' canonicalBoard)"

text \<open>Line 54: the visit counts of the root's edges, 0 for an absent edge.\<close>

definition edge_visits :: "('g, 'e) MCTS \<Rightarrow> string \<Rightarrow> int \<Rightarrow> nat" where
  "edge_visits m s a = (case Nsa m (s, a) of Some n \<Rightarrow> n | None \<Rightarrow> 0)"

definition root_counts :: "('g, 'e) MCTS \<Rightarrow> string \<Rightarrow> nat list" where
  "root_counts m s = map (\<lambda>a. edge_visits m s (int a)) [0..<action_dim]"

text \<open>
  Lines 57 to 63. \<^verbatim>\<open>np.random.choice\<close> draws one of the indices of maximal count;
  the draw is the argument \<open>rnd\<close>.
\<close>

definition greedy :: "nat \<Rightarrow> nat list \<Rightarrow> real list" where
  "greedy rnd counts =
     (let bestAs = filter (\<lambda>i. counts ! i = Max (set counts)) [0..<length counts];
          bestA = bestAs ! (rnd mod length bestAs)
      in (replicate (length counts) 0)[bestA := 1])"

text \<open>
  Python's \<^verbatim>\<open>x ** y\<close> for an integer \<open>x \<ge> 0\<close> and a finite float \<open>y\<close>: zero to a
  negative power raises.
\<close>

definition py_pow :: "nat \<Rightarrow> real \<Rightarrow> py_error + real" where
  "py_pow x y =
     (if x = 0 then (if y < 0 then Inl ZeroDivisionError else if y = 0 then Inr 1 else Inr 0)
      else Inr (real x powr y))"

fun pow_all :: "nat list \<Rightarrow> real \<Rightarrow> py_error + real list" where
  "pow_all [] y = Inr []"
| "pow_all (x # xs) y =
     (case py_pow x y of
        Inl err \<Rightarrow> Inl err
      | Inr c \<Rightarrow> (case pow_all xs y of Inl err \<Rightarrow> Inl err | Inr cs \<Rightarrow> Inr (c # cs)))"

text \<open>
  Lines 65 to 68, for a finite temperature other than 0 (the reciprocal of a finite float
  is not 0); a float division by zero raises in Python.
\<close>

definition normalize :: "nat list \<Rightarrow> real \<Rightarrow> py_error + real list" where
  "normalize counts temp =
     (case pow_all counts (1 / temp) of
        Inl err \<Rightarrow> Inl err
      | Inr cs \<Rightarrow>
          (let counts_sum = sum_list cs
           in if cs \<noteq> [] \<and> counts_sum = 0 then Inl ZeroDivisionError
              else Inr (map (\<lambda>x. x / counts_sum) cs)))"

definition getActionProb ::
  "('b, 'g, 'e) iface \<Rightarrow> nat \<Rightarrow> ('g, 'e) MCTS \<Rightarrow> 'b \<Rightarrow> real
     \<Rightarrow> (py_error + real list \<times> ('g, 'e) MCTS) option"
where
  "getActionProb I rnd m canonicalBoard temp =
     (case simulations I (numMCTSSim m) m canonicalBoard of
        None \<Rightarrow> None
      | Some (Inl err) \<Rightarrow> Some (Inl err)
      | Some (Inr m') \<Rightarrow>
          (let s = array2string I canonicalBoard;
               counts = root_counts m' s
           in if temp = 0 then Some (Inr (greedy rnd counts, m'))
              else (case normalize counts temp of
                      Inl err \<Rightarrow> Some (Inl err)
                    | Inr probs \<Rightarrow> Some (Inr (probs, m')))))"

subsection \<open>Runs of the engine\<close>

text \<open>
  The states an engine object can be in: the one \<^verbatim>\<open>__init__\<close> builds, and every
  state a completed call of \<^verbatim>\<open>search\<close> leaves. The game object is shared with the
  caller, who may step or reset it between two calls.
\<close>

inductive reachable :: "('b, 'g, 'e) iface \<Rightarrow> ('g, 'e) MCTS \<Rightarrow> bool" for I where
  init: "reachable I (MCTS_init g e n c)"
| pass: "reachable I m \<Longrightarrow> search I m b game_ended = Some (Inr (v, m')) \<Longrightarrow> reachable I m'"
| env: "reachable I m \<Longrightarrow> reachable I (m\<lparr>game := g\<rparr>)"


text \<open>
  The walk of one call of \<^verbatim>\<open>search\<close>: it stops at a state whose cached flag is set,
  at a state without a prior, or where the selection raises; otherwise it goes on from
  the state the environment steps to.
\<close>

inductive halts :: "('b, 'g, 'e) iface \<Rightarrow> ('g, 'e) MCTS \<Rightarrow> 'b \<Rightarrow> bool \<Rightarrow> bool" for I where
  at_terminal:
    "Es (note_ended m (array2string I b) e) (array2string I b) = Some True \<Longrightarrow> halts I m b e"
| at_leaf:
    "Es (note_ended m (array2string I b) e) (array2string I b) \<noteq> Some True \<Longrightarrow>
     Ps (note_ended m (array2string I b) e) (array2string I b) = None \<Longrightarrow> halts I m b e"
| at_error:
    "Es (note_ended m (array2string I b) e) (array2string I b) \<noteq> Some True \<Longrightarrow>
     Ps (note_ended m (array2string I b) e) (array2string I b) = Some p \<Longrightarrow>
     select_action (fl_round I) (note_ended m (array2string I b) e) (array2string I b) = Inl err \<Longrightarrow>
     halts I m b e"
| descend:
    "Es (note_ended m (array2string I b) e) (array2string I b) \<noteq> Some True \<Longrightarrow>
     Ps (note_ended m (array2string I b) e) (array2string I b) = Some p \<Longrightarrow>
     select_action (fl_round I) (note_ended m (array2string I b) e) (array2string I b) = Inr a \<Longrightarrow>
     step I (game (note_ended m (array2string I b) e)) a = (b', d, g') \<Longrightarrow>
     halts I ((note_ended m (array2string I b) e)\<lparr>game := g'\<rparr>) b' d \<Longrightarrow>
     halts I m b e"

text \<open>
  An estimator that also keeps the list of the boards it was asked about, to observe the
  calls of \<^verbatim>\<open>model.predict\<close>.
\<close>

definition logged :: "('b, 'g, 'e) iface \<Rightarrow> ('b, 'g, 'e \<times> 'b list) iface" where
  "logged I =
     \<lparr>array2string = array2string I, step = step I,
      predict = (\<lambda>(e, asked) b. case predict I e b of (r, e') \<Rightarrow> (r, (e', asked @ [b]))),
      fl_round = fl_round I\<rparr>"

subsection \<open>Three small worlds\<close>

text \<open>
  Boards are strings and are their own keys. In the first world every move leads to a
  board never seen before and the game never ends; the estimator answers 0.5 and the
  uniform prior, and counts its calls; the arithmetic is exact. In the second world every
  move leads back to the same board. The third world is the first with priors of
  \<open>2 ^ 600\<close> and an arithmetic that overflows where a double does.
\<close>

definition uniform_prior :: "real list" where
  "uniform_prior = [1 / 6, 1 / 6, 1 / 6, 1 / 6, 1 / 6, 1 / 6]"

definition fresh_world :: "(string, string, nat) iface" where
  "fresh_world =
     \<lparr>array2string = (\<lambda>b. b),
      step = (\<lambda>g a. (CHR ''m'' # g, False, CHR ''m'' # g)),
      predict = (\<lambda>e b. ((1 / 2, uniform_prior), Suc e)),
      fl_round = Fin\<rparr>"

definition loop_world :: "(string, unit, unit) iface" where
  "loop_world =
     \<lparr>array2string = (\<lambda>b. b),
      step = (\<lambda>g a. (''r'', False, ())),
      predict = (\<lambda>e b. ((1 / 2, uniform_prior), ())),
      fl_round = Fin\<rparr>"




text \<open>
  The engine in the first world, with two simulations per decision and exploration
  constant 1, after its first pass: the root (the empty board) is expanded and nothing
  else is known.
\<close>

definition root_expanded :: "(string, nat) MCTS" where
  "root_expanded =
     \<lparr>game = [], model = 1, numMCTSSim = 2, cpuct = 1,
      Qsa = Map.empty, Nsa = Map.empty, Ns = [[] \<mapsto> 0], Ps = [[] \<mapsto> uniform_prior],
      Es = [[] \<mapsto> False]\<rparr>"

text \<open>
  The same engine during its second pass, when the board reached by the first move has
  been expanded, and after the second pass, when that move has been backed up.
\<close>

definition child_expanded :: "(string, nat) MCTS" where
  "child_expanded =
     \<lparr>game = ''m'', model = 2, numMCTSSim = 2, cpuct = 1,
      Qsa = Map.empty, Nsa = Map.empty, Ns = [[] \<mapsto> 0, ''m'' \<mapsto> 0],
      Ps = [[] \<mapsto> uniform_prior, ''m'' \<mapsto> uniform_prior],
      Es = [[] \<mapsto> False, ''m'' \<mapsto> False]\<rparr>"

definition root_backed :: "(string, nat) MCTS" where
  "root_backed =
     child_expanded\<lparr>Qsa := [([], 0) \<mapsto> - 1 / 2], Nsa := [([], 0) \<mapsto> 1],
       Ns := [[] \<mapsto> 0, ''m'' \<mapsto> 0, [] \<mapsto> 1]\<rparr>"

text \<open>The engine in the second world after its first pass.\<close>

definition loop_expanded :: "(unit, unit) MCTS" where
  "loop_expanded =
     \<lparr>game = (), model = (), numMCTSSim = 2, cpuct = 1,
      Qsa = Map.empty, Nsa = Map.empty, Ns = [''r'' \<mapsto> 0], Ps = [''r'' \<mapsto> uniform_prior],
      Es = [''r'' \<mapsto> False]\<rparr>"



section \<open>Properties\<close>

subsection \<open>The selection loop\<close>











lemma upt_action_dim: "[0..<action_dim] = [0, 1, 2, 3, 4, 5]"
  unfolding action_dim_def by code_simp

subsection \<open>Unfolding one call of the search\<close>

lemma search_terminal:
  "Es (note_ended m (array2string I b) e) (array2string I b) = Some True \<Longrightarrow>
   search I m b e = Some (Inr (1, note_ended m (array2string I b) e))"
  by (subst search.simps) (simp add: Let_def)

lemma search_leaf:
  "Es (note_ended m (array2string I b) e) (array2string I b) \<noteq> Some True \<Longrightarrow>
   Ps (note_ended m (array2string I b) e) (array2string I b) = None \<Longrightarrow>
   search I m b e =
     Some (Inr (expand I (note_ended m (array2string I b) e) b (array2string I b)))"
  by (subst search.simps) (simp add: Let_def dom_def)

lemma search_select_error:
  "Es (note_ended m (array2string I b) e) (array2string I b) \<noteq> Some True \<Longrightarrow>
   Ps (note_ended m (array2string I b) e) (array2string I b) = Some p \<Longrightarrow>
   select_action (fl_round I) (note_ended m (array2string I b) e) (array2string I b) = Inl err \<Longrightarrow>
   search I m b e = Some (Inl err)"
  by (subst search.simps) (simp add: Let_def dom_def)

lemma search_step:
  "Es (note_ended m (array2string I b) e) (array2string I b) \<noteq> Some True \<Longrightarrow>
   Ps (note_ended m (array2string I b) e) (array2string I b) = Some p \<Longrightarrow>
   select_action (fl_round I) (note_ended m (array2string I b) e) (array2string I b) = Inr a \<Longrightarrow>
   step I (game (note_ended m (array2string I b) e)) a = (b', d, g') \<Longrightarrow>
   search I m b e =
     Option.bind (search I ((note_ended m (array2string I b) e)\<lparr>game := g'\<rparr>) b' d)
       (\<lambda>r. case r of
              Inl err \<Rightarrow> Some (Inl err)
            | Inr (v, m1) \<Rightarrow> Some (backup m1 (array2string I b) a v))"
  by (subst search.simps) (simp add: Let_def dom_def)

lemma search_induct [consumes 1, case_names terminal leaf step]:
  assumes "search I m b e = Some (Inr (v, m'))"
    and "\<And>m b e. Es (note_ended m (array2string I b) e) (array2string I b) = Some True \<Longrightarrow>
           P m b e 1 (note_ended m (array2string I b) e)"
    and "\<And>m b e m0 s. s = array2string I b \<Longrightarrow> m0 = note_ended m s e \<Longrightarrow>
           Es m0 s \<noteq> Some True \<Longrightarrow> Ps m0 s = None \<Longrightarrow>
           P m b e (fst (expand I m0 b s)) (snd (expand I m0 b s))"
    and "\<And>m b e m0 s p a b' d g' v m1 v' m'. s = array2string I b \<Longrightarrow> m0 = note_ended m s e \<Longrightarrow>
           Es m0 s \<noteq> Some True \<Longrightarrow> Ps m0 s = Some p \<Longrightarrow> select_action (fl_round I) m0 s = Inr a \<Longrightarrow>
           step I (game m0) a = (b', d, g') \<Longrightarrow>
           P (m0\<lparr>game := g'\<rparr>) b' d v m1 \<Longrightarrow> backup m1 s a v = Inr (v', m') \<Longrightarrow>
           P m b e v' m'"
  shows "P m b e v m'"
proof -
  have "J = I \<longrightarrow> (\<forall>v m'. r = Inr (v, m') \<longrightarrow> P m b e v m')"
    if "search J m b e = Some r" for J m b e r
  proof (rule search.raw_induct [where P = "\<lambda>J m b e r. J = I \<longrightarrow>
      (\<forall>v m'. r = Inr (v, m') \<longrightarrow> P m b e v m')", OF _ that], goal_cases)
    case (1 f J m b e r)
    define s where "s = array2string J b"
    define m0 where "m0 = note_ended m s e"
    show ?case
    proof (intro impI allI)
      fix v m'
      assume J: "J = I" and r: "r = Inr (v, m')"
      note body = 1(2) [folded s_def, unfolded Let_def, folded m0_def]
      show "P m b e v m'"
      proof (cases "Es m0 s = Some True")
        case True
        with body r have "v = 1" "m' = m0" by auto
        with True assms(2) [of m b e] J show ?thesis by (simp add: m0_def s_def)
      next
        case nt: False
        show ?thesis
        proof (cases "Ps m0 s")
          case None
          with nt body r have "expand J m0 b s = (v, m')" by (auto simp: dom_def)
          with assms(3) [of s b m0 m e] nt None J show ?thesis by (simp add: m0_def s_def)
        next
          case (Some p)
          with nt body r obtain a where a': "select_action (fl_round J) m0 s = Inr a"
            by (cases "select_action (fl_round J) m0 s") (auto simp: dom_def)
          then have a: "select_action (fl_round I) m0 s = Inr a" using J by simp
          obtain b' d g' where st: "step J (game m0) a = (b', d, g')"
            by (cases "step J (game m0) a") auto
          from body nt Some a' st r obtain v1 m1 where
            rec: "f J (m0\<lparr>game := g'\<rparr>) b' d = Some (Inr (v1, m1))" and
            bk: "backup m1 s a v1 = Inr (v, m')"
            by (auto simp: dom_def split: Option.bind_splits sum.splits)
          from 1(1) [OF rec] J have "P (m0\<lparr>game := g'\<rparr>) b' d v1 m1" by simp
          moreover have "s = array2string I b" using J by (simp add: s_def)
          moreover have "step I (game m0) a = (b', d, g')" using st J by simp
          ultimately show ?thesis
            using assms(4) [of s b m0 m e p a b' d g' v1 m1 v m'] nt Some a bk m0_def by blast
        qed
      qed
    qed
  qed
  with assms(1) show ?thesis by blast
qed

subsection \<open>Stored flags and the expanded case\<close>

lemma note_ended_simps:
  "game (note_ended m s e) = game m" "model (note_ended m s e) = model m"
  "Ps (note_ended m s e) = Ps m" "Ns (note_ended m s e) = Ns m"
  "Qsa (note_ended m s e) = Qsa m" "Nsa (note_ended m s e) = Nsa m"
  "cpuct (note_ended m s e) = cpuct m" "numMCTSSim (note_ended m s e) = numMCTSSim m"
  by (simp_all add: note_ended_def)

lemma note_ended_Es:
  "Es (note_ended m s e) k = (if k = s \<and> Es m s = None then Some e else Es m k)"
  by (auto simp: note_ended_def dom_def)

lemma search_expanded:
  "Es (note_ended m (array2string I b) e) (array2string I b) \<noteq> Some True \<Longrightarrow>
   Ps m (array2string I b) = Some p \<Longrightarrow>
   search I m b e =
     (case select_action (fl_round I) (note_ended m (array2string I b) e) (array2string I b) of
        Inl err \<Rightarrow> Some (Inl err)
      | Inr a \<Rightarrow>
          (case step I (game m) a of
             (next_s, done, g') \<Rightarrow>
               Option.bind
                 (search I ((note_ended m (array2string I b) e)\<lparr>game := g'\<rparr>) next_s done)
                 (\<lambda>r. case r of
                        Inl err \<Rightarrow> Some (Inl err)
                      | Inr (v, m1) \<Rightarrow> Some (backup m1 (array2string I b) a v))))"
  by (subst search.simps) (simp add: Let_def dom_def note_ended_simps cong: sum.case_cong)


subsection \<open>Fields that a step leaves alone\<close>

lemma backup_fields:
  "backup m s a v = Inr (v', m') \<Longrightarrow>
   v' = - v \<and> Es m' = Es m \<and> Ps m' = Ps m \<and> game m' = game m \<and> model m' = model m \<and>
   cpuct m' = cpuct m \<and> numMCTSSim m' = numMCTSSim m"
  by (auto simp: backup_def split: option.splits)

lemma expand_fields:
  "Es (snd (expand I m b s)) = Es m" "game (snd (expand I m b s)) = game m"
  "Qsa (snd (expand I m b s)) = Qsa m" "Nsa (snd (expand I m b s)) = Nsa m"
  "cpuct (snd (expand I m b s)) = cpuct m" "numMCTSSim (snd (expand I m b s)) = numMCTSSim m"
  "Ps (snd (expand I m b s)) = (Ps m)(s \<mapsto> snd (fst (predict I (model m) b)))"
  "Ns (snd (expand I m b s)) = (Ns m)(s \<mapsto> 0)"
  "model (snd (expand I m b s)) = snd (predict I (model m) b)"
  "fst (expand I m b s) = - fst (fst (predict I (model m) b))"
  by (simp_all add: expand_def split: prod.splits)

lemma fl_round_fresh: "fl_round fresh_world = Fin"
  by (simp add: fresh_world_def)

lemma select_root_expanded: "select_action Fin root_expanded [] = Inr 0"
  by (simp add: select_action_def upt_action_dim ucb_def uniform_prior_def root_expanded_def EPS_def)

lemma note_ended_root_expanded: "note_ended root_expanded [] e = root_expanded"
  by (simp add: note_ended_def root_expanded_def)


subsection \<open>The first world, pass by pass\<close>

lemma first_pass:
  "search fresh_world (MCTS_init [] 0 2 1) [] False = Some (Inr (- (1 / 2), root_expanded))"
  by (subst search.simps)
    (simp add: Let_def note_ended_def expand_def fresh_world_def MCTS_init_def root_expanded_def)

lemma child_pass:
  "search fresh_world (root_expanded\<lparr>game := ''m''\<rparr>) ''m'' False =
     Some (Inr (- (1 / 2), child_expanded))"
  by (subst search.simps)
    (simp add: Let_def note_ended_def expand_def fresh_world_def root_expanded_def
      child_expanded_def)

lemma backup_child: "backup child_expanded [] 0 (- (1 / 2)) = Inr (1 / 2, root_backed)"
  by (simp add: backup_def child_expanded_def root_backed_def)

lemma step_fresh: "step fresh_world g a = (CHR ''m'' # g, False, CHR ''m'' # g)"
  by (simp add: fresh_world_def)

lemma game_root: "game root_expanded = []"
  by (simp add: root_expanded_def)

lemma second_pass:
  "search fresh_world root_expanded [] False = Some (Inr (1 / 2, root_backed))"
proof -
  have k: "array2string fresh_world [] = []" by (simp add: fresh_world_def)
  have "Es (note_ended root_expanded (array2string fresh_world []) False)
      (array2string fresh_world []) \<noteq> Some True"
    by (simp add: k note_ended_Es root_expanded_def)
  moreover have "Ps root_expanded (array2string fresh_world []) = Some uniform_prior"
    by (simp add: k root_expanded_def)
  ultimately show ?thesis
    by (simp add: search_expanded k note_ended_root_expanded select_root_expanded fl_round_fresh step_fresh
        child_pass backup_child game_root)
qed


subsection \<open>Backup\<close>

text \<open>
  Claim C3. Let \<open>s\<close> be an expanded state that is not cached as terminal, \<open>a\<close> the
  selected action, and let the recursive call on the board the game steps to return the
  value \<open>v\<close> and the engine \<open>m1\<close>. Then \<^verbatim>\<open>search\<close> returns what the backup makes of
  \<open>m1\<close>: when the edge has a value \<open>q\<close> and a count \<open>n\<close>, the value becomes the running mean
  \<open>(n * q + v) / (n + 1)\<close> and the count \<open>n + 1\<close>; when the edge has no value, the value
  becomes \<open>v\<close> and the count 1; in both cases \<open>Ns[s]\<close> grows by one and the call returns
  \<open>- v\<close>. Whatever the call returns, it is the negation of what it received.
\<close>

theorem backup_running_mean:
  assumes "Es (note_ended m (array2string I b) e) (array2string I b) \<noteq> Some True"
    and "Ps m (array2string I b) = Some p"
    and "select_action (fl_round I) (note_ended m (array2string I b) e) (array2string I b) = Inr a"
    and "step I (game m) a = (b', d, g')"
    and "search I ((note_ended m (array2string I b) e)\<lparr>game := g'\<rparr>) b' d = Some (Inr (v, m1))"
  shows "search I m b e = Some (backup m1 (array2string I b) a v) \<and>
         (\<forall>q n k. Qsa m1 (array2string I b, a) = Some q \<and> Nsa m1 (array2string I b, a) = Some n \<and>
            Ns m1 (array2string I b) = Some k \<longrightarrow>
            search I m b e =
              Some (Inr (- v,
                m1\<lparr>Qsa := (Qsa m1)((array2string I b, a) \<mapsto> (real n * q + v) / (real n + 1)),
                   Nsa := (Nsa m1)((array2string I b, a) \<mapsto> n + 1),
                   Ns := (Ns m1)(array2string I b \<mapsto> k + 1)\<rparr>))) \<and>
         (\<forall>k. Qsa m1 (array2string I b, a) = None \<and> Ns m1 (array2string I b) = Some k \<longrightarrow>
            search I m b e =
              Some (Inr (- v,
                m1\<lparr>Qsa := (Qsa m1)((array2string I b, a) \<mapsto> v),
                   Nsa := (Nsa m1)((array2string I b, a) \<mapsto> 1),
                   Ns := (Ns m1)(array2string I b \<mapsto> k + 1)\<rparr>))) \<and>
         (\<forall>v' m'. search I m b e = Some (Inr (v', m')) \<longrightarrow> v' = - v)"
proof -
  have s: "search I m b e = Some (backup m1 (array2string I b) a v)"
    using assms by (simp add: search_expanded)
  show ?thesis
    unfolding s by (auto simp: backup_def split: option.splits)
qed

theorem backup_running_mean_witness:
  "select_action (fl_round fresh_world)
     (note_ended root_expanded (array2string fresh_world []) False)
     (array2string fresh_world []) = Inr 0 \<and>
   step fresh_world (game root_expanded) 0 = (''m'', False, ''m'') \<and>
   search fresh_world ((note_ended root_expanded (array2string fresh_world []) False)
     \<lparr>game := ''m''\<rparr>) ''m'' False = Some (Inr (- (1 / 2), child_expanded)) \<and>
   Qsa child_expanded ([], 0) = None \<and> Ns child_expanded [] = Some 0 \<and>
   search fresh_world root_expanded [] False =
     Some (Inr (1 / 2, child_expanded\<lparr>Qsa := (Qsa child_expanded)(([], 0) \<mapsto> - (1 / 2)),
       Nsa := (Nsa child_expanded)(([], 0) \<mapsto> 1), Ns := (Ns child_expanded)([] \<mapsto> 0 + 1)\<rparr>))"
proof -
  have k: "array2string fresh_world [] = []" by (simp add: fresh_world_def)
  have h1: "Es (note_ended root_expanded (array2string fresh_world []) False)
      (array2string fresh_world []) \<noteq> Some True"
    by (simp add: k note_ended_Es root_expanded_def)
  have h2: "Ps root_expanded (array2string fresh_world []) = Some uniform_prior"
    by (simp add: k root_expanded_def)
  have h3: "select_action (fl_round fresh_world)
      (note_ended root_expanded (array2string fresh_world []) False)
      (array2string fresh_world []) = Inr 0"
    by (simp add: k note_ended_root_expanded select_root_expanded fl_round_fresh)
  have h4: "step fresh_world (game root_expanded) 0 = (''m'', False, ''m'')"
    by (simp add: step_fresh game_root)
  have h5: "search fresh_world ((note_ended root_expanded (array2string fresh_world []) False)
      \<lparr>game := ''m''\<rparr>) ''m'' False = Some (Inr (- (1 / 2), child_expanded))"
    by (simp add: k note_ended_root_expanded child_pass)
  have h6: "Qsa child_expanded ([], 0) = None \<and> Ns child_expanded [] = Some 0"
    by (simp add: child_expanded_def)
  from backup_running_mean [OF h1 h2 h3 h4 h5] h6
  have "search fresh_world root_expanded [] False =
     Some (Inr (- (- (1 / 2)), child_expanded\<lparr>Qsa := (Qsa child_expanded)(([], 0) \<mapsto> - (1 / 2)),
       Nsa := (Nsa child_expanded)(([], 0) \<mapsto> 1), Ns := (Ns child_expanded)([] \<mapsto> 0 + 1)\<rparr>))"
    unfolding k by blast
  with h3 h4 h5 h6 show ?thesis by simp
qed


subsection \<open>Terminal states\<close>

lemma search_keeps_flags:
  assumes "search I m b e = Some (Inr (v, m'))"
  shows "(\<forall>k f. Es m k = Some f \<longrightarrow> Es m' k = Some f) \<and>
         (Es m (array2string I b) = None \<longrightarrow> Es m' (array2string I b) = Some e)"
  using assms
proof (induction rule: search_induct)
  case (terminal m b e)
  show ?case by (simp add: note_ended_Es)
next
  case (leaf m b e m0 s)
  then show ?case by (simp add: expand_fields note_ended_Es)
next
  case (step m b e m0 s p a b' d g' v m1 v' m')
  from backup_fields [OF step.hyps(7)] have "Es m' = Es m1" by simp
  moreover have "\<forall>k f. Es m0 k = Some f \<longrightarrow> Es m1 k = Some f"
    using step.IH by simp
  moreover have "\<forall>k f. Es m k = Some f \<longrightarrow> Es m0 k = Some f"
    "Es m s = None \<longrightarrow> Es m0 s = Some e"
    using step.hyps(2) by (simp_all add: note_ended_Es)
  ultimately show ?case using step.hyps(1) by simp
qed

text \<open>
  Claim C5. A state whose cached flag is true makes \<^verbatim>\<open>search\<close> return exactly 1, not
  negated, and leave the engine as it is, whatever flag the caller passes. On the first
  sight of a state the flag passed by the caller is stored, so a first visit with a true
  flag returns 1 as well. Every completed call keeps every flag that was stored before
  it, and stores the caller's flag for the state it was called on if that state had none.
\<close>

theorem terminal_flag_frozen:
  "(Es m (array2string I b) = Some True \<longrightarrow> search I m b e = Some (Inr (1, m))) \<and>
   (Es m (array2string I b) = None \<and> e \<longrightarrow>
      search I m b e = Some (Inr (1, m\<lparr>Es := (Es m)(array2string I b \<mapsto> True)\<rparr>))) \<and>
   (\<forall>v m'. search I m b e = Some (Inr (v, m')) \<longrightarrow>
      (\<forall>k f. Es m k = Some f \<longrightarrow> Es m' k = Some f) \<and>
      (Es m (array2string I b) = None \<longrightarrow> Es m' (array2string I b) = Some e))"
proof (intro conjI impI allI)
  assume "Es m (array2string I b) = Some True"
  then show "search I m b e = Some (Inr (1, m))"
    by (subst search_terminal) (auto simp: note_ended_def)
next
  assume "Es m (array2string I b) = None \<and> e"
  then show "search I m b e = Some (Inr (1, m\<lparr>Es := (Es m)(array2string I b \<mapsto> True)\<rparr>))"
    by (subst search_terminal) (auto simp: note_ended_def)
next
  fix v m' k f
  assume "search I m b e = Some (Inr (v, m'))" and f: "Es m k = Some f"
  from search_keeps_flags [OF this(1)] f show "Es m' k = Some f" by blast
next
  fix v m'
  assume "search I m b e = Some (Inr (v, m'))" and f: "Es m (array2string I b) = None"
  from search_keeps_flags [OF this(1)] f show "Es m' (array2string I b) = Some e" by blast
qed

theorem terminal_flag_frozen_witness:
  "search fresh_world (MCTS_init [] 0 2 1) [] True =
     Some (Inr (1, (MCTS_init [] 0 2 1)\<lparr>Es := [[] \<mapsto> True]\<rparr>)) \<and>
   search fresh_world ((MCTS_init [] 0 2 1)\<lparr>Es := [[] \<mapsto> True]\<rparr>) [] False =
     Some (Inr (1, (MCTS_init [] 0 2 1)\<lparr>Es := [[] \<mapsto> True]\<rparr>)) \<and>
   Es root_backed [] = Some False"
proof -
  have k: "array2string fresh_world [] = []" by (simp add: fresh_world_def)
  have "Es (MCTS_init [] (0::nat) 2 1 :: (string, nat) MCTS) (array2string fresh_world []) = None"
    by (simp add: MCTS_init_def)
  with terminal_flag_frozen [of "MCTS_init [] 0 2 1" fresh_world "[]" True]
  have 1: "search fresh_world (MCTS_init [] 0 2 1) [] True =
     Some (Inr (1, (MCTS_init [] 0 2 1)\<lparr>Es := (Es (MCTS_init [] 0 2 1 :: (string, nat) MCTS))
       ([] \<mapsto> True)\<rparr>))"
    unfolding k by blast
  have "Es ((MCTS_init [] (0::nat) 2 1 :: (string, nat) MCTS)\<lparr>Es := [[] \<mapsto> True]\<rparr>)
      (array2string fresh_world []) = Some True"
    by (simp add: k)
  with terminal_flag_frozen [of "(MCTS_init [] 0 2 1)\<lparr>Es := [[] \<mapsto> True]\<rparr>" fresh_world "[]" False]
  have 2: "search fresh_world ((MCTS_init [] 0 2 1)\<lparr>Es := [[] \<mapsto> True]\<rparr>) [] False =
     Some (Inr (1, (MCTS_init [] 0 2 1)\<lparr>Es := [[] \<mapsto> True]\<rparr>))"
    by blast
  have "Es root_expanded [] = Some False" by (simp add: root_expanded_def)
  with terminal_flag_frozen [of root_expanded fresh_world "[]" False] second_pass
  have 3: "Es root_backed [] = Some False"
    unfolding k by blast
  from 1 2 3 show ?thesis by (simp add: MCTS_init_def)
qed


subsection \<open>Leaf expansion\<close>

lemma search_keeps_priors:
  assumes "search I m b e = Some (Inr (v, m'))"
  shows "\<forall>k p. Ps m k = Some p \<longrightarrow> Ps m' k = Some p"
  using assms
proof (induction rule: search_induct)
  case (terminal m b e)
  show ?case by (simp add: note_ended_simps)
next
  case (leaf m b e m0 s)
  then show ?case by (auto simp: expand_fields note_ended_simps)
next
  case (step m b e m0 s p a b' d g' v m1 v' m')
  from backup_fields [OF step.hyps(7)] have "Ps m' = Ps m1" by simp
  with step.IH step.hyps(2) show ?case by (simp add: note_ended_simps)
qed

lemma logged_simps:
  "array2string (logged I) = array2string I" "step (logged I) = step I"
  "fl_round (logged I) = fl_round I"
  "predict (logged I) (x, l) b = (fst (predict I x b), (snd (predict I x b), l @ [b]))"
  by (simp_all add: logged_def split: prod.splits)

lemma search_queries:
  assumes "search (logged I) m b e = Some (Inr (v, m'))"
  shows "\<exists>qs. snd (model m') = snd (model m) @ qs \<and> length qs \<le> 1 \<and>
           (\<forall>q \<in> set qs. Ps m (array2string I q) = None \<and> Ps m' (array2string I q) \<noteq> None)"
  using assms
proof (induction rule: search_induct)
  case (terminal m b e)
  show ?case by (simp add: note_ended_simps)
next
  case (leaf m b e m0 s)
  obtain x l where ml: "model m = (x, l)" by (cases "model m")
  with leaf have "snd (model (snd (expand (logged I) m0 b s))) = snd (model m) @ [b]"
    by (simp add: expand_fields note_ended_simps logged_simps)
  moreover have "Ps m (array2string I b) = None"
    using leaf by (simp add: note_ended_simps logged_simps)
  moreover have "Ps (snd (expand (logged I) m0 b s)) (array2string I b) \<noteq> None"
    using leaf by (simp add: expand_fields logged_simps)
  ultimately show ?case by simp
next
  case (step m b e m0 s p a b' d g' v m1 v' m')
  from backup_fields [OF step.hyps(7)] have f: "Ps m' = Ps m1" "model m' = model m1" by simp_all
  from step.IH step.hyps(2) f show ?case by (simp add: note_ended_simps)
qed


text \<open>
  Claim C4. When \<^verbatim>\<open>search\<close> reaches a state \<open>s\<close> that is not cached as terminal and
  has no prior, it asks the estimator once (the estimator object is left as one call of
  \<^verbatim>\<open>predict\<close> leaves it), stores the returned prior as \<open>Ps[s]\<close>, sets \<open>Ns[s]\<close> to 0 and
  returns the negated value; the game is not stepped and no edge is touched. Every
  completed call keeps every stored prior. With an estimator that records the boards it
  is asked about, a completed call asks about at most one board, and only about a board
  whose state had no prior before the call and has one after it: a state with a prior is
  never asked about again.
\<close>

theorem leaf_expansion:
  "(Es (note_ended m (array2string I b) e) (array2string I b) \<noteq> Some True \<and>
    Ps m (array2string I b) = None \<longrightarrow>
      search I m b e =
        Some (Inr (- fst (fst (predict I (model m) b)),
          (note_ended m (array2string I b) e)
            \<lparr>model := snd (predict I (model m) b),
             Ps := (Ps m)(array2string I b \<mapsto> snd (fst (predict I (model m) b))),
             Ns := (Ns m)(array2string I b \<mapsto> 0)\<rparr>))) \<and>
   (\<forall>v m'. search I m b e = Some (Inr (v, m')) \<longrightarrow>
      (\<forall>k p. Ps m k = Some p \<longrightarrow> Ps m' k = Some p)) \<and>
   (\<forall>v ml ml'. search (logged I) ml b e = Some (Inr (v, ml')) \<longrightarrow>
      (\<exists>qs. snd (model ml') = snd (model ml) @ qs \<and> length qs \<le> 1 \<and>
         (\<forall>q \<in> set qs. Ps ml (array2string I q) = None \<and> Ps ml' (array2string I q) \<noteq> None)))"
proof (intro conjI impI allI)
  assume "Es (note_ended m (array2string I b) e) (array2string I b) \<noteq> Some True \<and>
    Ps m (array2string I b) = None"
  then show "search I m b e =
        Some (Inr (- fst (fst (predict I (model m) b)),
          (note_ended m (array2string I b) e)
            \<lparr>model := snd (predict I (model m) b),
             Ps := (Ps m)(array2string I b \<mapsto> snd (fst (predict I (model m) b))),
             Ns := (Ns m)(array2string I b \<mapsto> 0)\<rparr>))"
    by (subst search_leaf) (simp_all add: note_ended_simps expand_def split: prod.splits)
next
  fix v m' k p
  assume "search I m b e = Some (Inr (v, m'))" and p: "Ps m k = Some p"
  from search_keeps_priors [OF this(1)] p show "Ps m' k = Some p" by blast
next
  fix v ml ml'
  assume "search (logged I) ml b e = Some (Inr (v, ml'))"
  then show "\<exists>qs. snd (model ml') = snd (model ml) @ qs \<and> length qs \<le> 1 \<and>
         (\<forall>q \<in> set qs. Ps ml (array2string I q) = None \<and> Ps ml' (array2string I q) \<noteq> None)"
    by (rule search_queries)
qed

theorem leaf_expansion_witness:
  "search fresh_world (MCTS_init [] 0 2 1) [] False = Some (Inr (- (1 / 2), root_expanded)) \<and>
   Ps root_expanded [] = Some uniform_prior \<and> Ps root_backed [] = Some uniform_prior \<and>
   search (logged fresh_world) (MCTS_init [] (0, []) 2 1) [] False =
     Some (Inr (- (1 / 2), (MCTS_init [] (1, [[]]) 2 1)
       \<lparr>Ns := [[] \<mapsto> 0], Ps := [[] \<mapsto> uniform_prior], Es := [[] \<mapsto> False]\<rparr>))"
proof -
  have k: "array2string fresh_world [] = []" "array2string (logged fresh_world) [] = []"
    by (simp_all add: fresh_world_def logged_simps)
  have h1: "Es (note_ended (MCTS_init [] (0::nat) 2 1) (array2string fresh_world []) False)
       (array2string fresh_world []) \<noteq> Some True \<and>
     Ps (MCTS_init [] (0::nat) 2 1 :: (string, nat) MCTS) (array2string fresh_world []) = None"
    by (simp add: note_ended_Es MCTS_init_def)
  from leaf_expansion [of "MCTS_init [] 0 2 1" fresh_world "[]" False] h1
  have 1: "search fresh_world (MCTS_init [] 0 2 1) [] False = Some (Inr (- (1 / 2), root_expanded))"
    by (simp add: note_ended_def MCTS_init_def fresh_world_def root_expanded_def)
  have p: "Ps root_expanded [] = Some uniform_prior" by (simp add: root_expanded_def)
  with leaf_expansion [of root_expanded fresh_world "[]" False] second_pass
  have 2: "Ps root_backed [] = Some uniform_prior" by blast
  have h3: "Es (note_ended (MCTS_init [] (0::nat, []::string list) 2 1)
       (array2string (logged fresh_world) []) False)
       (array2string (logged fresh_world) []) \<noteq> Some True \<and>
     Ps (MCTS_init [] (0::nat, []::string list) 2 1 :: (string, nat \<times> string list) MCTS)
       (array2string (logged fresh_world) []) = None"
    by (simp add: note_ended_Es MCTS_init_def)
  from leaf_expansion [of "MCTS_init [] (0, []) 2 1" "logged fresh_world" "[]" False] h3
  have 3: "search (logged fresh_world) (MCTS_init [] (0, []) 2 1) [] False =
     Some (Inr (- (1 / 2), (MCTS_init [] (1, [[]]) 2 1)
       \<lparr>Ns := [[] \<mapsto> 0], Ps := [[] \<mapsto> uniform_prior], Es := [[] \<mapsto> False]\<rparr>))"
    by (simp add: note_ended_def MCTS_init_def fresh_world_def logged_def)
  from 1 p 2 3 show ?thesis by blast
qed


subsection \<open>Values stay in range\<close>

lemma mean_bounded:
  fixes q v :: real
  assumes "\<bar>q\<bar> \<le> 1" and "\<bar>v\<bar> \<le> 1"
  shows "\<bar>real n * q + v\<bar> \<le> real n + 1"
    and "\<bar>(real n * q + v) / (real n + 1)\<bar> \<le> 1"
proof -
  have "\<bar>real n * q + v\<bar> \<le> \<bar>real n * q\<bar> + \<bar>v\<bar>" by (rule abs_triangle_ineq)
  also have "\<bar>real n * q\<bar> = real n * \<bar>q\<bar>" by (simp add: abs_mult)
  also have "real n * \<bar>q\<bar> + \<bar>v\<bar> \<le> real n * 1 + 1"
    using assms by (intro add_mono mult_left_mono) simp_all
  finally show "\<bar>real n * q + v\<bar> \<le> real n + 1" by simp
  then show "\<bar>(real n * q + v) / (real n + 1)\<bar> \<le> 1" by simp
qed

lemma backup_bounded:
  assumes "backup m s a v = Inr (v', m')" and "\<bar>v\<bar> \<le> 1"
    and "\<forall>k q. Qsa m k = Some q \<longrightarrow> \<bar>q\<bar> \<le> 1"
  shows "\<bar>v'\<bar> \<le> 1 \<and> (\<forall>k q. Qsa m' k = Some q \<longrightarrow> \<bar>q\<bar> \<le> 1)"
  using assms by (auto simp: backup_def mean_bounded split: option.splits if_splits)

lemma search_bounded:
  assumes "search I m b e = Some (Inr (v, m'))"
    and "\<forall>x c. \<bar>fst (fst (predict I x c))\<bar> \<le> 1"
  shows "(\<forall>k q. Qsa m k = Some q \<longrightarrow> \<bar>q\<bar> \<le> 1) \<longrightarrow>
         \<bar>v\<bar> \<le> 1 \<and> (\<forall>k q. Qsa m' k = Some q \<longrightarrow> \<bar>q\<bar> \<le> 1)"
  using assms(1)
proof (induction rule: search_induct)
  case (terminal m b e)
  show ?case by (simp add: note_ended_simps)
next
  case (leaf m b e m0 s)
  with assms(2) show ?case by (simp add: expand_fields note_ended_simps)
next
  case (step m b e m0 s p a b' d g' v m1 v' m')
  show ?case
  proof
    assume "\<forall>k q. Qsa m k = Some q \<longrightarrow> \<bar>q\<bar> \<le> 1"
    with step.IH step.hyps(2) have "\<bar>v\<bar> \<le> 1" "\<forall>k q. Qsa m1 k = Some q \<longrightarrow> \<bar>q\<bar> \<le> 1"
      by (simp_all add: note_ended_simps)
    with backup_bounded [OF step.hyps(7)] show "\<bar>v'\<bar> \<le> 1 \<and> (\<forall>k q. Qsa m' k = Some q \<longrightarrow> \<bar>q\<bar> \<le> 1)"
      by blast
  qed
qed

lemma reachable_bounded:
  assumes "reachable I m" and "\<forall>x c. \<bar>fst (fst (predict I x c))\<bar> \<le> 1"
  shows "\<forall>k q. Qsa m k = Some q \<longrightarrow> \<bar>q\<bar> \<le> 1"
  using assms(1)
proof (induction rule: reachable.induct)
  case (init g e n c)
  show ?case by (simp add: MCTS_init_def)
next
  case (pass m b game_ended v m')
  with search_bounded [OF pass.hyps(2) assms(2)] show ?case by blast
next
  case (env m g)
  then show ?case by simp
qed

lemma reachable_root_backed: "reachable fresh_world root_backed"
  by (rule reachable.pass [OF reachable.pass [OF reachable.init first_pass [simplified]] second_pass])

text \<open>
  Claim C7. If every value the estimator returns lies in \<open>[-1, 1]\<close>, then in every state
  the engine can be in after its construction and any sequence of completed calls of
  \<^verbatim>\<open>search\<close> (the value returned at a cached terminal state being 1), every stored
  \<open>Qsa[s, a]\<close> lies in \<open>[-1, 1]\<close>.
\<close>

theorem value_bound:
  assumes "\<forall>x c. - 1 \<le> fst (fst (predict I x c)) \<and> fst (fst (predict I x c)) \<le> 1"
    and "reachable I m" and "Qsa m (s, a) = Some q"
  shows "- 1 \<le> q \<and> q \<le> 1"
proof -
  from assms(1) have "\<forall>x c. \<bar>fst (fst (predict I x c))\<bar> \<le> 1" by (simp add: abs_le_iff) 
  from reachable_bounded [OF assms(2) this] assms(3) have "\<bar>q\<bar> \<le> 1" by blast
  then show ?thesis by (simp add: abs_le_iff)
qed

theorem value_bound_witness:
  "reachable fresh_world root_backed \<and> Qsa root_backed ([], 0) = Some (- (1 / 2)) \<and>
   - 1 \<le> (- (1 / 2) :: real) \<and> (- (1 / 2) :: real) \<le> 1"
proof -
  have e: "\<forall>x c. - 1 \<le> fst (fst (predict fresh_world x c)) \<and>
      fst (fst (predict fresh_world x c)) \<le> 1"
    by (simp add: fresh_world_def)
  have q: "Qsa root_backed ([], 0) = Some (- (1 / 2))"
    by (simp add: root_backed_def child_expanded_def)
  from value_bound [OF e reachable_root_backed q] reachable_root_backed q show ?thesis by blast
qed

subsection \<open>The third world\<close>
















subsection \<open>Selection safety\<close>




subsection \<open>Selection\<close>









subsection \<open>Counts are conserved\<close>













subsection \<open>Which calls return\<close>

lemma halts_returns: "halts I m b e \<Longrightarrow> \<exists>r. search I m b e = Some r"
proof (induction rule: halts.induct)
  case (at_terminal m b e)
  then show ?case by (simp add: search_terminal)
next
  case (at_leaf m b e)
  then show ?case by (simp add: search_leaf)
next
  case (at_error m b e p err)
  then show ?case by (simp add: search_select_error)
next
  case (descend m b e p a b' d g')
  from descend.IH obtain r where r: "search I ((note_ended m (array2string I b) e)\<lparr>game := g'\<rparr>) b' d = Some r"
    by blast
  show ?case
    unfolding search_step [OF descend.hyps(1-4)] r
    by (cases r) (auto split: prod.splits)
qed

lemma returns_halts:
  assumes "search I m b e = Some r"
  shows "halts I m b e"
proof (rule search.raw_induct [where P = "\<lambda>J m b e r. halts J m b e", OF _ assms], goal_cases)
  case (1 f J m b e r)
  define s where "s = array2string J b"
  define m0 where "m0 = note_ended m s e"
  note body = 1(2) [folded s_def, unfolded Let_def, folded m0_def]
  show ?case
  proof (cases "Es m0 s = Some True")
    case True
    then show ?thesis unfolding m0_def s_def by (rule halts.at_terminal)
  next
    case nt: False
    show ?thesis
    proof (cases "Ps m0 s")
      case None
      with nt show ?thesis unfolding m0_def s_def by (rule halts.at_leaf)
    next
      case (Some p)
      show ?thesis
      proof (cases "select_action (fl_round J) m0 s")
        case (Inl err)
        with nt Some show ?thesis unfolding m0_def s_def by (rule halts.at_error)
      next
        case (Inr a)
        obtain b' d g' where st: "step J (game m0) a = (b', d, g')"
          by (cases "step J (game m0) a") auto
        from body nt Some Inr st obtain r' where "f J (m0\<lparr>game := g'\<rparr>) b' d = Some r'"
          by (auto simp: dom_def split: Option.bind_splits)
        from 1(1) [OF this] have "halts J (m0\<lparr>game := g'\<rparr>) b' d" .
        with nt Some Inr st show ?thesis unfolding m0_def s_def by (rule halts.descend)
      qed
    qed
  qed
qed

lemma select_loop_expanded: "select_action Fin loop_expanded ''r'' = Inr 0"
  by (simp add: select_action_def upt_action_dim ucb_def uniform_prior_def loop_expanded_def EPS_def)

lemma note_ended_loop_expanded: "note_ended loop_expanded ''r'' e = loop_expanded"
  by (simp add: note_ended_def loop_expanded_def)

lemma loop_never_halts:
  "halts I m b e \<Longrightarrow> I = loop_world \<longrightarrow> m = loop_expanded \<longrightarrow> b = ''r'' \<longrightarrow> False"
proof (induction rule: halts.induct)
  case (at_terminal m b e)
  show ?case using at_terminal by (auto simp: loop_world_def note_ended_Es loop_expanded_def)
next
  case (at_leaf m b e)
  show ?case using at_leaf by (auto simp: loop_world_def note_ended_simps loop_expanded_def)
next
  case (at_error m b e p err)
  show ?case using at_error(3)
    by (auto simp: loop_world_def note_ended_loop_expanded select_loop_expanded)
next
  case (descend m b e p a b' d g')
  show ?case
  proof (intro impI)
    assume I: "I = loop_world" and m: "m = loop_expanded" and b: "b = ''r''"
    have k: "array2string I b = ''r''" using I b by (simp add: loop_world_def)
    from descend.hyps(4) I have "b' = ''r''" by (simp add: loop_world_def)
    moreover have "(note_ended m (array2string I b) e)\<lparr>game := g'\<rparr> = loop_expanded"
      unfolding k m note_ended_loop_expanded by (simp add: loop_expanded_def)
    ultimately show False using descend.IH I by simp
  qed
qed



lemma ucb_no_recursion_error: "ucb rd m s a \<noteq> Inl RecursionError"
proof -
  have "fl_sqrt rd x \<noteq> Inl RecursionError" for x
    by (cases x) auto
  then show ?thesis
    by (auto simp: ucb_def split: option.splits sum.splits)
qed

lemma select_loop_no_recursion_error: "select_loop rd m s as acc \<noteq> Inl RecursionError"
proof (induction as arbitrary: acc)
  case Nil
  show ?case by simp
next
  case (Cons a as)
  obtain cb ba where acc: "acc = (cb, ba)" by (cases acc)
  show ?case
    using Cons ucb_no_recursion_error [of rd m s a]
    by (auto simp: acc split: sum.splits)
qed

lemma select_action_no_recursion_error: "select_action rd m s \<noteq> Inl RecursionError"
  using select_loop_no_recursion_error [of rd m s "[0..<action_dim]" "(NInf, - 1)"]
  by (auto simp: select_action_def split: sum.splits)

lemma backup_no_recursion_error: "backup m s a v \<noteq> Inl RecursionError"
  by (auto simp: backup_def split: option.splits)

text \<open>A walk that halts gives its result under every limit that is large enough.\<close>

lemma halts_within:
  "halts I m b e \<Longrightarrow>
   \<exists>n r. search I m b e = Some r \<and> r \<noteq> Inl RecursionError \<and>
     (\<forall>k \<ge> n. search_within I k m b e = r)"
proof (induction rule: halts.induct)
  case (at_terminal m b e)
  have "\<forall>k \<ge> Suc 0. search_within I k m b e =
      Inr (1, note_ended m (array2string I b) e)"
  proof (intro allI impI)
    fix k assume "Suc 0 \<le> k"
    then obtain k' where "k = Suc k'" by (cases k) auto
    with at_terminal show "search_within I k m b e =
        Inr (1, note_ended m (array2string I b) e)"
      by (simp add: Let_def)
  qed
  with search_terminal [OF at_terminal] show ?case by blast
next
  case (at_leaf m b e)
  have "\<forall>k \<ge> Suc 0. search_within I k m b e =
      Inr (expand I (note_ended m (array2string I b) e) b (array2string I b))"
  proof (intro allI impI)
    fix k assume "Suc 0 \<le> k"
    then obtain k' where "k = Suc k'" by (cases k) auto
    with at_leaf show "search_within I k m b e =
        Inr (expand I (note_ended m (array2string I b) e) b (array2string I b))"
      by (simp add: Let_def dom_def)
  qed
  with search_leaf [OF at_leaf] show ?case by blast
next
  case (at_error m b e p err)
  have "\<forall>k \<ge> Suc 0. search_within I k m b e = Inl err"
  proof (intro allI impI)
    fix k assume "Suc 0 \<le> k"
    then obtain k' where "k = Suc k'" by (cases k) auto
    with at_error show "search_within I k m b e = Inl err"
      by (simp add: Let_def dom_def)
  qed
  moreover have "Inl err \<noteq> (Inl RecursionError :: py_error + real \<times> ('b, 'c) MCTS)"
    using at_error(3) select_action_no_recursion_error by auto
  ultimately show ?case using search_select_error [OF at_error] by blast
next
  case (descend m b e p a b' d g')
  let ?s = "array2string I b"
  let ?m0 = "note_ended m ?s e"
  let ?k = "\<lambda>r. case r of Inl err \<Rightarrow> Inl err | Inr (v, m1) \<Rightarrow> backup m1 ?s a v"
  from descend.IH obtain n r where r: "search I (?m0\<lparr>game := g'\<rparr>) b' d = Some r"
    "r \<noteq> Inl RecursionError" "\<forall>k \<ge> n. search_within I k (?m0\<lparr>game := g'\<rparr>) b' d = r"
    by blast
  have 1: "search I m b e = Some (?k r)"
    unfolding search_step [OF descend.hyps(1-4)] r(1)
    by (cases r) (auto split: prod.splits)
  have 2: "?k r \<noteq> Inl RecursionError"
    using r(2) backup_no_recursion_error by (cases r) (auto split: prod.splits)
  have 3: "\<forall>k \<ge> Suc n. search_within I k m b e = ?k r"
  proof (intro allI impI)
    fix k assume "Suc n \<le> k"
    then obtain k' where k: "k = Suc k'" "n \<le> k'" by (cases k) auto
    from r(3) k(2) have "search_within I k' (?m0\<lparr>game := g'\<rparr>) b' d = r" by simp
    with descend.hyps(1-4) show "search_within I k m b e = ?k r"
      by (cases r) (auto simp: k(1) Let_def dom_def split: prod.splits)
  qed
  from 1 2 3 show ?case by blast
qed

text \<open>What a call returns under a limit, unless it is the error of the limit, is what the
  walk returns.\<close>

lemma within_returns:
  "search_within I n m b e = r \<Longrightarrow> r \<noteq> Inl RecursionError \<Longrightarrow> search I m b e = Some r"
proof (induction n arbitrary: m b e r)
  case 0
  then show ?case by simp
next
  case (Suc n)
  let ?s = "array2string I b"
  let ?m0 = "note_ended m ?s e"
  show ?case
  proof (cases "Es ?m0 ?s = Some True")
    case True
    with Suc.prems(1) search_terminal [OF True] show ?thesis by (simp add: Let_def)
  next
    case nt: False
    show ?thesis
    proof (cases "Ps ?m0 ?s")
      case None
      with nt Suc.prems(1) search_leaf [OF nt None] show ?thesis
        by (simp add: Let_def dom_def)
    next
      case (Some p)
      show ?thesis
      proof (cases "select_action (fl_round I) ?m0 ?s")
        case (Inl err)
        with nt Some Suc.prems(1) search_select_error [OF nt Some Inl] show ?thesis
          by (simp add: Let_def dom_def)
      next
        case (Inr a)
        obtain b' d g' where st: "step I (game ?m0) a = (b', d, g')"
          by (cases "step I (game ?m0) a") auto
        define r' where "r' = search_within I n (?m0\<lparr>game := g'\<rparr>) b' d"
        from nt Some Inr st Suc.prems(1)
        have r: "r = (case r' of Inl err \<Rightarrow> Inl err | Inr (v, m1) \<Rightarrow> backup m1 ?s a v)"
          by (simp add: Let_def dom_def r'_def)
        with Suc.prems(2) have "r' \<noteq> Inl RecursionError" by auto
        from Suc.IH [OF r'_def [symmetric] this]
        have "search I (?m0\<lparr>game := g'\<rparr>) b' d = Some r'" .
        then show ?thesis
          unfolding search_step [OF nt Some Inr st] r
          by (cases r') (auto split: prod.splits)
      qed
    qed
  qed
qed

lemma loop_recursion_error:
  "search_within loop_world n loop_expanded ''r'' e = Inl RecursionError"
proof (cases "search_within loop_world n loop_expanded ''r'' e = Inl RecursionError")
  case True
  then show ?thesis .
next
  case False
  from within_returns [OF refl False] have "halts loop_world loop_expanded ''r'' e"
    by (rule returns_halts)
  with loop_never_halts show ?thesis by blast
qed


text \<open>
  Claim C9, as the code has it. Every call of \<^verbatim>\<open>search\<close> returns, but the recursion is
  not well-founded: it is cut by the recursion limit of the interpreter. Under a limit
  of \<open>n\<close> frames a call either raises \<^verbatim>\<open>RecursionError\<close> or returns exactly what the
  walk through the selected actions returns, and the walk returns only after it has
  reached a state cached as terminal or a state without a prior (then every level backs
  the value up) or a state where the selection raises (then that exception is passed
  on). When the walk reaches such a state, every limit that is large enough gives its
  result. When it never does, as in an environment that steps back to an expanded state,
  the call raises \<^verbatim>\<open>RecursionError\<close> under every limit.
\<close>

theorem search_returns_or_recursion_error:
  "(\<forall>n. search_within I n m b e = Inl RecursionError \<or>
        (halts I m b e \<and> search I m b e = Some (search_within I n m b e))) \<and>
   (halts I m b e \<longrightarrow>
      (\<exists>n r. search I m b e = Some r \<and> r \<noteq> Inl RecursionError \<and>
         (\<forall>k \<ge> n. search_within I k m b e = r))) \<and>
   (\<not> halts I m b e \<longrightarrow>
      search I m b e = None \<and> (\<forall>n. search_within I n m b e = Inl RecursionError))"
proof (intro conjI allI impI)
  fix n
  show "search_within I n m b e = Inl RecursionError \<or>
      (halts I m b e \<and> search I m b e = Some (search_within I n m b e))"
  proof (cases "search_within I n m b e = Inl RecursionError")
    case True
    then show ?thesis by simp
  next
    case False
    from within_returns [OF refl False]
    have r: "search I m b e = Some (search_within I n m b e)" .
    then have "halts I m b e" by (rule returns_halts)
    with r show ?thesis by simp
  qed
next
  assume "halts I m b e"
  then show "\<exists>n r. search I m b e = Some r \<and> r \<noteq> Inl RecursionError \<and>
      (\<forall>k \<ge> n. search_within I k m b e = r)"
    by (rule halts_within)
next
  assume nh: "\<not> halts I m b e"
  show "search I m b e = None"
  proof (cases "search I m b e")
    case None
    then show ?thesis .
  next
    case (Some r)
    then have "halts I m b e" by (rule returns_halts)
    with nh show ?thesis by simp
  qed
next
  fix n
  assume nh: "\<not> halts I m b e"
  show "search_within I n m b e = Inl RecursionError"
  proof (rule ccontr)
    assume "search_within I n m b e \<noteq> Inl RecursionError"
    from within_returns [OF refl this] have "halts I m b e" by (rule returns_halts)
    with nh show False by simp
  qed
qed

theorem search_returns_or_recursion_error_witness:
  "halts fresh_world root_expanded [] False \<and>
   search fresh_world root_expanded [] False = Some (Inr (1 / 2, root_backed)) \<and>
   (\<exists>n. \<forall>k \<ge> n. search_within fresh_world k root_expanded [] False = Inr (1 / 2, root_backed))"
proof -
  have h: "halts fresh_world root_expanded [] False"
    using second_pass by (rule returns_halts)
  with search_returns_or_recursion_error [of fresh_world root_expanded "[]" False]
  obtain n r where "search fresh_world root_expanded [] False = Some r"
    "\<forall>k \<ge> n. search_within fresh_world k root_expanded [] False = r"
    by blast
  with second_pass have "\<forall>k \<ge> n. search_within fresh_world k root_expanded [] False =
      Inr (1 / 2, root_backed)"
    by simp
  with h second_pass show ?thesis by blast
qed

text \<open>
  The claim as stated fails in the second world, whose estimator and environment meet
  the interface: the first pass expands the root, every move leads back to it, and the
  next call, here with room for 1000 frames, ends in \<^verbatim>\<open>RecursionError\<close> without having
  reached a leaf or a terminal state.
\<close>

theorem search_recursion_error_counterexample:
  "search loop_world (MCTS_init () () 2 1) ''r'' False = Some (Inr (- (1 / 2), loop_expanded)) \<and>
   step loop_world () 0 = (''r'', False, ()) \<and>
   \<not> halts loop_world loop_expanded ''r'' False \<and>
   search_within loop_world 1000 loop_expanded ''r'' False = Inl RecursionError"
proof (intro conjI)
  show "search loop_world (MCTS_init () () 2 1) ''r'' False = Some (Inr (- (1 / 2), loop_expanded))"
    by (subst search.simps)
      (simp add: Let_def note_ended_def expand_def loop_world_def MCTS_init_def loop_expanded_def)
  show "step loop_world () 0 = (''r'', False, ())" by (simp add: loop_world_def)
  show "\<not> halts loop_world loop_expanded ''r'' False" using loop_never_halts by blast
  show "search_within loop_world 1000 loop_expanded ''r'' False = Inl RecursionError"
    by (rule loop_recursion_error)
qed

subsection \<open>Normalising counts that are all zero\<close>











subsection \<open>Two simulations from a fresh root\<close>

lemma search_leaf_explicit:
  assumes "Es (note_ended m (array2string I b) e) (array2string I b) \<noteq> Some True"
    and "Ps m (array2string I b) = None"
  shows "search I m b e =
        Some (Inr (- fst (fst (predict I (model m) b)),
          (note_ended m (array2string I b) e)
            \<lparr>model := snd (predict I (model m) b),
             Ps := (Ps m)(array2string I b \<mapsto> snd (fst (predict I (model m) b))),
             Ns := (Ns m)(array2string I b \<mapsto> 0)\<rparr>))"
  using assms
  by (subst search_leaf) (simp_all add: note_ended_simps expand_def split: prod.splits)

lemma greedy_one_hot: "greedy rnd [1, 0, 0, 0, 0, 0] = [1, 0, 0, 0, 0, 0]"
proof -
  have "[0..<length [1::nat, 0, 0, 0, 0, 0]] = [0, 1, 2, 3, 4, 5]" by code_simp
  moreover have "Max (set [1::nat, 0, 0, 0, 0, 0]) = 1" by simp
  moreover have "replicate (length [1::nat, 0, 0, 0, 0, 0]) (0::real) = [0, 0, 0, 0, 0, 0]"
    by simp
  ultimately show ?thesis by (simp add: greedy_def)
qed

text \<open>
  Claim C1. Let the estimator always return the value 0.5 and the prior \<open>[1/6]*6\<close>, let
  the environment never report termination, let the board that action 0 leads to from
  the root be a new state, and let the common score \<open>C * (1/6) * sqrt(0 + 1e-8)\<close> be
  computed without an exception and be greater than \<open>-inf\<close>, as it is for every
  finite \<open>C\<close> in double arithmetic. Then from a fresh engine with two simulations per
  decision: the first pass expands the root as a leaf (prior set, \<open>Ns[root] = 0\<close>, no
  edge) and returns \<open>-0.5\<close>; in the second pass the six scores are equal and the loop
  selects action 0, the child is a fresh leaf returning \<open>-0.5\<close>, and the backup sets
  \<open>Qsa[root, 0] = -0.5\<close>, \<open>Nsa[root, 0] = 1\<close>, \<open>Ns[root] = 1\<close> and returns 0.5; the root
  counts are \<open>[1, 0, 0, 0, 0, 0]\<close> and \<^verbatim>\<open>getActionProb\<close> with temperature 0 returns
  \<open>[1, 0, 0, 0, 0, 0]\<close> whatever the random draw.
\<close>

theorem two_simulations:
  fixes I :: "('b, 'g, 'e) iface" and g0 :: 'g and e0 :: 'e and b0 :: 'b and C :: real
    and r :: pyfloat
  defines "s0 \<equiv> array2string I b0"
    and "b1 \<equiv> fst (step I g0 0)"
    and "g1 \<equiv> snd (snd (step I g0 0))"
    and "u \<equiv> fl_mul (fl_round I) (fl_mul (fl_round I) (Fin C) (Fin (1 / 6))) r"
  defines "s1 \<equiv> array2string I b1"
  defines "m \<equiv> MCTS_init g0 e0 2 C"
  defines "m1 \<equiv> m\<lparr>model := snd (predict I e0 b0), Ns := [s0 \<mapsto> 0],
                   Ps := [s0 \<mapsto> uniform_prior], Es := [s0 \<mapsto> False]\<rparr>"
  defines "mc \<equiv> m1\<lparr>game := g1, model := snd (predict I (model m1) b1),
                    Ns := [s0 \<mapsto> 0, s1 \<mapsto> 0],
                    Ps := [s0 \<mapsto> uniform_prior, s1 \<mapsto> uniform_prior],
                    Es := [s0 \<mapsto> False, s1 \<mapsto> False]\<rparr>"
  defines "m2 \<equiv> mc\<lparr>Qsa := [(s0, 0) \<mapsto> - (1 / 2)], Nsa := [(s0, 0) \<mapsto> 1],
                    Ns := [s0 \<mapsto> 0, s1 \<mapsto> 0, s0 \<mapsto> 1]\<rparr>"
  assumes est: "\<forall>x c. fst (predict I x c) = (1 / 2, uniform_prior)"
    and env: "\<forall>g a. fst (snd (step I g a)) = False"
    and fresh: "array2string I (fst (step I g0 0)) \<noteq> array2string I b0"
    and sq: "fl_sqrt (fl_round I) (fl_add (fl_round I) (Fin 0) (Fin (1 / 10 ^ 8))) = Inr r"
    and fin: "fl_gt (fl_mul (fl_round I) (fl_mul (fl_round I) (Fin C) (Fin (1 / 6))) r) NInf"
  shows "search I m b0 False = Some (Inr (- (1 / 2), m1)) \<and>
         Ps m1 s0 = Some uniform_prior \<and> Ns m1 s0 = Some 0 \<and>
         Qsa m1 = Map.empty \<and> Nsa m1 = Map.empty \<and>
         (\<forall>j < action_dim. ucb (fl_round I) m1 s0 j = Inr u) \<and>
         select_action (fl_round I) m1 s0 = Inr 0 \<and>
         step I (game m1) 0 = (b1, False, g1) \<and>
         search I (m1\<lparr>game := g1\<rparr>) b1 False = Some (Inr (- (1 / 2), mc)) \<and>
         search I m1 b0 False = Some (Inr (1 / 2, m2)) \<and>
         Qsa m2 (s0, 0) = Some (- (1 / 2)) \<and> Nsa m2 (s0, 0) = Some 1 \<and>
         Ns m2 s0 = Some 1 \<and>
         simulations I 2 m b0 = Some (Inr m2) \<and>
         root_counts m2 s0 = [1, 0, 0, 0, 0, 0] \<and>
         (\<forall>rnd. getActionProb I rnd m b0 0 = Some (Inr ([1, 0, 0, 0, 0, 0], m2)))"
proof -
  have p1: "fst (fst (predict I x c)) = 1 / 2" "snd (fst (predict I x c)) = uniform_prior" for x c
    using est by simp_all
  have st: "step I g0 0 = (b1, False, g1)"
    using env [rule_format, of g0 0] by (cases "step I g0 0") (simp add: b1_def g1_def)
  have ne: "s1 \<noteq> s0" using fresh by (simp add: s1_def s0_def b1_def)
  have 1: "search I m b0 False = Some (Inr (- (1 / 2), m1))"
    by (subst search_leaf_explicit)
      (simp_all add: note_ended_def p1 m_def MCTS_init_def m1_def s0_def)
  have uj: "ucb (fl_round I) m1 s0 j = Inr u" if "j < action_dim" for j
  proof -
    from that have "j \<in> set [0..<action_dim]" by simp
    then have pj: "uniform_prior ! j = 1 / 6" and len: "\<not> length uniform_prior \<le> j"
      unfolding upt_action_dim by (auto simp: uniform_prior_def)
    have f: "Ps m1 s0 = Some uniform_prior" "Qsa m1 (s0, int j) = None" "Ns m1 s0 = Some 0"
      "cpuct m1 = C"
      by (simp_all add: m1_def m_def MCTS_init_def)
    show ?thesis
      by (simp only: ucb_def f option.case len if_False of_nat_0 EPS_def sq sum.case pj u_def)
  qed
  then have 2: "\<forall>j < action_dim. ucb (fl_round I) m1 s0 j = Inr u" by blast
  have nn: "\<not> fl_gt u u" by (cases u) auto
  have "\<forall>j \<in> set [0, 1, 2, 3, 4, 5]. ucb (fl_round I) m1 s0 j = Inr u"
    using uj unfolding upt_action_dim [symmetric] by simp
  then have 3: "select_action (fl_round I) m1 s0 = Inr 0"
    using fin nn by (simp add: select_action_def upt_action_dim u_def)
  have 4: "search I (m1\<lparr>game := g1\<rparr>) b1 False = Some (Inr (- (1 / 2), mc))"
    using ne
    by (subst search_leaf_explicit)
      (simp_all add: note_ended_def p1 m_def MCTS_init_def m1_def mc_def s1_def [symmetric])
  have ne0: "note_ended m1 s0 False = m1"
    by (simp add: note_ended_def m1_def)
  have h1: "Es (note_ended m1 (array2string I b0) False) (array2string I b0) \<noteq> Some True"
    unfolding s0_def [symmetric] ne0 by (simp add: m1_def)
  have h2: "Ps m1 (array2string I b0) = Some uniform_prior"
    unfolding s0_def [symmetric] by (simp add: m1_def)
  have gm: "game m1 = g0" by (simp add: m1_def m_def MCTS_init_def)
  have bk: "backup mc s0 0 (- (1 / 2)) = Inr (1 / 2, m2)"
    using ne by (simp add: backup_def mc_def m1_def m_def MCTS_init_def m2_def)
  have 5: "search I m1 b0 False = Some (Inr (1 / 2, m2))"
    unfolding search_expanded [OF h1 h2]
    by (simp only: s0_def [symmetric] ne0 3 sum.case gm st prod.case 4 Option.bind.simps bk)
  have "simulations I (Suc (Suc 0)) m b0 = Some (Inr m2)"
    by (simp only: simulations.simps 1 5 option.case sum.case prod.case)
  then have 6: "simulations I 2 m b0 = Some (Inr m2)" by (simp add: numeral_2_eq_2)
  have 7: "root_counts m2 s0 = [1, 0, 0, 0, 0, 0]"
    by (simp add: root_counts_def upt_action_dim edge_visits_def m2_def)
  have n2: "numMCTSSim m = 2" by (simp add: m_def MCTS_init_def)
  have 8: "getActionProb I rnd m b0 0 = Some (Inr ([1, 0, 0, 0, 0, 0], m2))" for rnd
    by (simp only: getActionProb_def n2 6 option.case sum.case Let_def s0_def [symmetric] 7
        greedy_one_hot) simp
  have 9: "Ps m1 s0 = Some uniform_prior \<and> Ns m1 s0 = Some 0 \<and>
      Qsa m1 = Map.empty \<and> Nsa m1 = Map.empty"
    by (simp add: m1_def m_def MCTS_init_def)
  have 10: "Qsa m2 (s0, 0) = Some (- (1 / 2)) \<and> Nsa m2 (s0, 0) = Some 1 \<and> Ns m2 s0 = Some 1"
    by (simp add: m2_def)
  have 11: "step I (game m1) 0 = (b1, False, g1)" using st gm by simp
  from 1 2 3 4 5 6 7 8 9 10 11 show ?thesis by blast
qed


theorem two_simulations_witness:
  "fl_sqrt (fl_round fresh_world) (fl_add (fl_round fresh_world) (Fin 0) (Fin (1 / 10 ^ 8))) =
     Inr (Fin (sqrt (1 / 10 ^ 8))) \<and>
   search fresh_world (MCTS_init [] 0 2 1) [] False = Some (Inr (- (1 / 2), root_expanded)) \<and>
   select_action (fl_round fresh_world) root_expanded [] = Inr 0 \<and>
   search fresh_world root_expanded [] False = Some (Inr (1 / 2, root_backed)) \<and>
   simulations fresh_world 2 (MCTS_init [] 0 2 1) [] = Some (Inr root_backed) \<and>
   root_counts root_backed [] = [1, 0, 0, 0, 0, 0] \<and>
   getActionProb fresh_world 3 (MCTS_init [] 0 2 1) [] 0 =
     Some (Inr ([1, 0, 0, 0, 0, 0], root_backed))"
proof -
  have est: "\<forall>x c. fst (predict fresh_world x c) = (1 / 2, uniform_prior)"
    by (simp add: fresh_world_def)
  have env: "\<forall>g a. fst (snd (step fresh_world g a)) = False"
    by (simp add: fresh_world_def)
  have fresh: "array2string fresh_world (fst (step fresh_world [] 0)) \<noteq>
      array2string fresh_world []"
    by (simp add: fresh_world_def)
  have sq: "fl_sqrt (fl_round fresh_world)
      (fl_add (fl_round fresh_world) (Fin 0) (Fin (1 / 10 ^ 8))) = Inr (Fin (sqrt (1 / 10 ^ 8)))"
    by (simp add: fl_round_fresh)
  have fin: "fl_gt (fl_mul (fl_round fresh_world)
      (fl_mul (fl_round fresh_world) (Fin 1) (Fin (1 / 6))) (Fin (sqrt (1 / 10 ^ 8)))) NInf"
    by (simp add: fl_round_fresh)
  have e1: "(MCTS_init [] 0 2 1)\<lparr>model := snd (predict fresh_world 0 []),
      Ns := [array2string fresh_world [] \<mapsto> 0],
      Ps := [array2string fresh_world [] \<mapsto> uniform_prior],
      Es := [array2string fresh_world [] \<mapsto> False]\<rparr> = root_expanded"
    by (simp add: fresh_world_def MCTS_init_def root_expanded_def)
  have e2: "root_expanded\<lparr>game := snd (snd (step fresh_world [] 0)),
      model := snd (predict fresh_world (model root_expanded) (fst (step fresh_world [] 0))),
      Ns := [array2string fresh_world [] \<mapsto> 0,
        array2string fresh_world (fst (step fresh_world [] 0)) \<mapsto> 0],
      Ps := [array2string fresh_world [] \<mapsto> uniform_prior,
        array2string fresh_world (fst (step fresh_world [] 0)) \<mapsto> uniform_prior],
      Es := [array2string fresh_world [] \<mapsto> False,
        array2string fresh_world (fst (step fresh_world [] 0)) \<mapsto> False],
      Qsa := [(array2string fresh_world [], 0) \<mapsto> - (1 / 2)],
      Nsa := [(array2string fresh_world [], 0) \<mapsto> 1],
      Ns := [array2string fresh_world [] \<mapsto> 0,
        array2string fresh_world (fst (step fresh_world [] 0)) \<mapsto> 0,
        array2string fresh_world [] \<mapsto> 1]\<rparr> = root_backed"
    by (simp add: fresh_world_def root_expanded_def root_backed_def child_expanded_def)
  have k: "array2string fresh_world [] = []" by (simp add: fresh_world_def)
  note t = two_simulations [where I = fresh_world and ?g0.0 = "[]" and ?e0.0 = 0
      and ?b0.0 = "[]" and C = 1 and r = "Fin (sqrt (1 / 10 ^ 8))", OF est env fresh sq fin,
      unfolded e1 e2]
  from t have "search fresh_world (MCTS_init [] 0 2 1) [] False =
        Some (Inr (- (1 / 2), root_expanded)) \<and>
      select_action (fl_round fresh_world) root_expanded (array2string fresh_world []) = Inr 0 \<and>
      search fresh_world root_expanded [] False = Some (Inr (1 / 2, root_backed)) \<and>
      simulations fresh_world 2 (MCTS_init [] 0 2 1) [] = Some (Inr root_backed) \<and>
      root_counts root_backed (array2string fresh_world []) = [1, 0, 0, 0, 0, 0] \<and>
      getActionProb fresh_world 3 (MCTS_init [] 0 2 1) [] 0 =
        Some (Inr ([1, 0, 0, 0, 0, 0], root_backed))"
    by blast
  with sq show ?thesis unfolding k by blast
qed

end
